theory Spec2Isabelle
  imports Main
begin

section \<open>The keyed store (type Cache)\<close>

text \<open>
  A Go \<open>error\<close> is an opaque value; only whether it is nil matters to the code below.
  It is represented by its message. An operation that returns \<open>error\<close> returns
  \<open>None\<close> for nil.
\<close>

type_synonym go_error = string

text \<open>
  Modelled from the spec: the type \<open>ObjectKeyFunc\<close>, declared outside the two source
  files. The spec calls it the keying function, a pure mapping from an object to a key
  that can fail; the code uses it as \<open>key, err := c.keyFunc(obj)\<close>. \<open>Inl\<close> is the
  error.
\<close>

type_synonym 'o ObjectKeyFunc = "'o \<Rightarrow> go_error + string"

text \<open>
  Modelled from the spec: the error types \<open>KeyError\<close> and \<open>DataNoExist\<close> (the spec's
  KeyDerivationError and NotFoundError), declared outside the two source files. The
  code builds them as \<open>KeyError{obj, err}\<close> and \<open>DataNoExist{obj}\<close>.
\<close>

datatype 'o store_error = KeyError 'o go_error | DataNoExist 'o

text \<open>
  The struct \<open>Cache\<close>. The field \<open>lock\<close> is left out: every method holds
  the lock for its whole body, and the model runs one method at a time.
  \<open>dataMap\<close> is \<open>map[string]interface{}\<close>.
\<close>

record 'o Cache =
  dataMap :: "string \<rightharpoonup> 'o"
  keyFunc :: "'o ObjectKeyFunc"

definition NewCache :: "'o ObjectKeyFunc \<Rightarrow> 'o Cache" where
  "NewCache kfunc = \<lparr>dataMap = Map.empty, keyFunc = kfunc\<rparr>"

text \<open>
  A method that mutates the cache returns the error and the cache afterwards.
\<close>

definition Add :: "'o Cache \<Rightarrow> 'o \<Rightarrow> 'o store_error option \<times> 'o Cache" where
  "Add c obj =
     (case keyFunc c obj of
        Inl err \<Rightarrow> (Some (KeyError obj err), c)
      | Inr key \<Rightarrow> (None, c\<lparr>dataMap := (dataMap c)(key \<mapsto> obj)\<rparr>))"

definition Update :: "'o Cache \<Rightarrow> 'o \<Rightarrow> 'o store_error option \<times> 'o Cache" where
  "Update c obj =
     (case keyFunc c obj of
        Inl err \<Rightarrow> (Some (KeyError obj err), c)
      | Inr key \<Rightarrow> (None, c\<lparr>dataMap := (dataMap c)(key \<mapsto> obj)\<rparr>))"

definition Delete :: "'o Cache \<Rightarrow> 'o \<Rightarrow> 'o store_error option \<times> 'o Cache" where
  "Delete c obj =
     (case keyFunc c obj of
        Inl err \<Rightarrow> (Some (KeyError obj err), c)
      | Inr key \<Rightarrow>
          (case dataMap c key of
             Some found \<Rightarrow> (None, c\<lparr>dataMap := (dataMap c)(key := None)\<rparr>)
           | None \<Rightarrow> (Some (DataNoExist obj), c)))"

text \<open>
  \<open>Get\<close> returns \<open>(item, exists, err)\<close>. The three shapes the code can return are
  \<open>(nil, false, KeyError)\<close>, \<open>(item, true, nil)\<close> and \<open>(nil, false, nil)\<close>; they are
  \<open>Inl (KeyError obj err)\<close>, \<open>Inr (Some item)\<close> and \<open>Inr None\<close>.
\<close>

definition Get :: "'o Cache \<Rightarrow> 'o \<Rightarrow> 'o store_error + 'o option" where
  "Get c obj =
     (case keyFunc c obj of
        Inl err \<Rightarrow> Inl (KeyError obj err)
      | Inr key \<Rightarrow> Inr (dataMap c key))"

definition GetByKey :: "'o Cache \<Rightarrow> string \<Rightarrow> 'o option" where
  "GetByKey c key = dataMap c key"

text \<open>
  Go's \<open>range\<close> over a map visits every entry exactly once, in an order the language
  leaves open. The order of one loop is an input of the model: a list \<open>ks\<close> of keys
  with \<open>range_order m ks\<close>. \<open>List\<close> appends the item of every visited key,
  \<open>ListKeys\<close> the key.
\<close>

definition range_order :: "('k \<rightharpoonup> 'v) \<Rightarrow> 'k list \<Rightarrow> bool" where
  "range_order m ks \<longleftrightarrow> distinct ks \<and> set ks = dom m"

definition List :: "'o Cache \<Rightarrow> string list \<Rightarrow> 'o list" where
  "List c ks = List.map_filter (dataMap c) ks"

definition ListKeys :: "'o Cache \<Rightarrow> string list \<Rightarrow> string list" where
  "ListKeys c ks = filter (\<lambda>key. dataMap c key \<noteq> None) ks"

definition Num :: "'o Cache \<Rightarrow> nat" where
  "Num c = card (dom (dataMap c))"

definition Clear :: "'o Cache \<Rightarrow> 'o Cache" where
  "Clear c = c\<lparr>dataMap := Map.empty\<rparr>"

text \<open>
  The loop of \<open>Replace\<close>: the first item whose key cannot be derived ends it, with
  the items before it already stored.
\<close>

fun Replace :: "'o Cache \<Rightarrow> 'o list \<Rightarrow> 'o store_error option \<times> 'o Cache" where
  "Replace c [] = (None, c)"
| "Replace c (item # list) =
     (case keyFunc c item of
        Inl err \<Rightarrow> (Some (KeyError item err), c)
      | Inr key \<Rightarrow> Replace (c\<lparr>dataMap := (dataMap c)(key \<mapsto> item)\<rparr>) list)"

text \<open>
  \<open>Reset\<close> assigns a fresh empty map to \<open>dataMap\<close> and then runs the same loop as
  \<open>Replace\<close>.
\<close>

definition Reset :: "'o Cache \<Rightarrow> 'o list \<Rightarrow> 'o store_error option \<times> 'o Cache" where
  "Reset c list = Replace (c\<lparr>dataMap := Map.empty\<rparr>) list"

section \<open>The reconciler (type Reflector)\<close>

text \<open>
  Modelled from the spec: the type of the objects, declared outside the two source
  files. The spec gives an object a namespace, a name and an optional mapping of
  annotations. The code reads \<open>GetNamespace()\<close> and \<open>GetName()\<close> (for log lines only)
  and \<open>GetAnnotations()\<close>, a \<open>map[string]string\<close> that may be nil. Everything else
  an object holds is \<open>Content\<close>.
\<close>

record 'a Object =
  Namespace :: string
  Name :: string
  Annotations :: "(string \<times> string) list option"
  Content :: 'a

text \<open>Indexing a Go \<open>map[string]string\<close>: a missing key reads as the empty string.\<close>

definition index :: "(string \<times> string) list \<Rightarrow> string \<Rightarrow> string" where
  "index m k = (case map_of m k of Some v \<Rightarrow> v | None \<Rightarrow> [])"

text \<open>
  Modelled from the spec: the event types of package \<open>watch\<close>, declared outside the two
  source files: Synced, Added, Updated, Deleted and Error, under the names the
  \<open>switch\<close> of \<open>handleWatch\<close> uses.
\<close>

datatype EventType = EventSync | EventAdded | EventUpdated | EventDeleted | EventErr

text \<open>
  Modelled from the spec: the event of package \<open>watch\<close>, a type and a payload object,
  read by the code as \<open>event.Type\<close> and \<open>event.Data\<close>.
\<close>

record 'a Event =
  Type :: EventType
  Data :: "'a Object"

text \<open>A call of one of the three methods of \<open>EventInterface\<close>.\<close>

datatype 'a call =
  OnAdd "'a Object"
| OnUpdate "'a Object" "'a Object"
| OnDelete "'a Object"

text \<open>
  The struct \<open>Reflector\<close>. The store is the \<open>Cache\<close> above, the one implementation
  of \<open>Store\<close> in the package. \<open>handler\<close> holds whether \<open>r.handler != nil\<close>.
  \<open>listWatch n\<close> is what the \<open>n\<close>-th call of \<open>r.listWatch.List()\<close> returns.
  Three fields record what the reconciler does to its surroundings: \<open>listCalls\<close>
  counts the calls of \<open>List()\<close>, \<open>fired\<close> is the sequence of calls made on the
  handler, oldest first, and \<open>launched\<close> counts the \<open>go r.handleWatch(...)\<close>
  statements executed. Two fields follow the goroutines so launched: \<open>started\<close>
  counts those that have begun to run \<open>handleWatch\<close>, \<open>watching\<close> those that are
  inside its loop. The fields \<open>name\<close>, \<open>cxt\<close>, \<open>stopFn\<close> and \<open>syncPeriod\<close> are
  left out.
\<close>

record 'a Reflector =
  listWatch :: "nat \<Rightarrow> go_error + 'a Object list"
  store :: "'a Object Cache"
  handler :: bool
  underWatch :: bool
  listCalls :: nat
  fired :: "'a call list"
  launched :: nat
  started :: nat
  watching :: nat

text \<open>The guarded call \<open>if r.handler != nil { r.handler.On...(...) }\<close>.\<close>

definition notify :: "'a Reflector \<Rightarrow> 'a call \<Rightarrow> 'a Reflector" where
  "notify r c = (if handler r then r\<lparr>fired := fired r @ [c]\<rparr> else r)"

text \<open>
  The loop \<open>for _, obj := range objs\<close> of \<open>listAllData\<close>. The errors that
  \<open>Update\<close> and \<open>Add\<close> return are dropped, as in the source.
\<close>

fun listLoop :: "'a Reflector \<Rightarrow> 'a Object list \<Rightarrow> 'a Reflector" where
  "listLoop r [] = r"
| "listLoop r (obj # objs) =
     listLoop
       (case Get (store r) obj of
          Inl err \<Rightarrow> r
        | Inr (Some oldObj) \<Rightarrow>
            notify (r\<lparr>store := snd (Update (store r) obj)\<rparr>) (OnUpdate oldObj obj)
        | Inr None \<Rightarrow>
            notify (r\<lparr>store := snd (Add (store r) obj)\<rparr>) (OnAdd obj))
       objs"

definition listAllData :: "'a Reflector \<Rightarrow> 'a Reflector" where
  "listAllData r =
     (case listWatch r (listCalls r) of
        Inl err \<Rightarrow> r\<lparr>listCalls := Suc (listCalls r)\<rparr>
      | Inr objs \<Rightarrow> listLoop (r\<lparr>listCalls := Suc (listCalls r)\<rparr>) objs)"

definition processAddUpdate :: "'a Reflector \<Rightarrow> 'a Event \<Rightarrow> 'a Reflector" where
  "processAddUpdate r event =
     (case Get (store r) (Data event) of
        Inl err \<Rightarrow> r
      | Inr (Some oldObj) \<Rightarrow>
          notify (r\<lparr>store := snd (Update (store r) (Data event))\<rparr>)
            (OnUpdate oldObj (Data event))
      | Inr None \<Rightarrow>
          notify (r\<lparr>store := snd (Add (store r) (Data event))\<rparr>) (OnAdd (Data event)))"

definition processDeletion :: "'a Reflector \<Rightarrow> 'a Event \<Rightarrow> 'a Reflector" where
  "processDeletion r event =
     (case Get (store r) (Data event) of
        Inl err \<Rightarrow> r
      | Inr (Some oldObj) \<Rightarrow>
          (let r' = r\<lparr>store := snd (Delete (store r) (Data event))\<rparr> in
           if (case Annotations (Data event) of
                 None \<Rightarrow> False
               | Some m \<Rightarrow> index m ''bk-bcs-inner-storage'' = ''bkbcs-zookeeper'')
           then notify r' (OnDelete oldObj)
           else notify r' (OnDelete (Data event)))
      | Inr None \<Rightarrow> r)"

text \<open>
  The loop of \<open>handleWatch\<close> over the events the channel delivers before it is closed
  or the context is cancelled.
\<close>

fun watchLoop :: "'a Reflector \<Rightarrow> 'a Event list \<Rightarrow> 'a Reflector" where
  "watchLoop r [] = r"
| "watchLoop r (event # events) =
     watchLoop
       (case Type event of
          EventSync \<Rightarrow> processAddUpdate r event
        | EventAdded \<Rightarrow> processAddUpdate r event
        | EventUpdated \<Rightarrow> processAddUpdate r event
        | EventDeleted \<Rightarrow> processDeletion r event
        | EventErr \<Rightarrow> r)
       events"

text \<open>
  \<open>handleWatch\<close>, given what \<open>r.listWatch.Watch()\<close> returns: an error, or a watcher
  whose channel delivers \<open>events\<close>.
\<close>

definition handleWatch :: "'a Reflector \<Rightarrow> go_error + 'a Event list \<Rightarrow> 'a Reflector" where
  "handleWatch r w =
     (if underWatch r then r
      else
        (case w of
           Inl err \<Rightarrow> r\<lparr>underWatch := False\<rparr>
         | Inr events \<Rightarrow> (watchLoop (r\<lparr>underWatch := True\<rparr>) events)\<lparr>underWatch := False\<rparr>))"

text \<open>
  \<open>Run\<close> works on two kinds of goroutine: its own, which runs the \<open>select\<close> loop,
  and the ones it launches with \<open>go r.handleWatch(watchCxt)\<close>. A run is a sequence
  of steps, each taken by one goroutine, in the order in which they happen:

  \<^item> \<open>CxtDone\<close>, \<open>SyncTick\<close>, \<open>WatchTick\<close>: the case of the \<open>select\<close> of \<open>Run\<close>
    that fires;
  \<^item> \<open>WatchStart w\<close>: a launched goroutine that has not begun yet runs \<open>handleWatch\<close>
    up to its loop, where \<open>w\<close> is the error that \<open>r.listWatch.Watch()\<close> returns,
    \<open>None\<close> for nil;
  \<^item> \<open>WatchEvent event\<close>: a goroutine inside the loop of \<open>handleWatch\<close> receives
    \<open>event\<close> from its channel and handles it;
  \<^item> \<open>WatchExit\<close>: a goroutine inside the loop of \<open>handleWatch\<close> finds its channel
    closed or its context cancelled and returns through the deferred function.

  A step of a launched goroutine that no goroutine can take (nothing launched is waiting
  to begin, nothing is inside the loop) changes nothing. A pass of \<open>listAllData\<close>
  and the handling of one event are one step each.
\<close>

datatype 'a tick =
  CxtDone
| SyncTick
| WatchTick
| WatchStart "go_error option"
| WatchEvent "'a Event"
| WatchExit

text \<open>
  The part of \<open>handleWatch\<close> before its loop, on a goroutine that begins to run: it
  returns at once when \<open>underWatch\<close> is set; otherwise it sets the flag and calls
  \<open>Watch()\<close>, and on an error clears the flag and returns.
\<close>

definition watchStart :: "'a Reflector \<Rightarrow> go_error option \<Rightarrow> 'a Reflector" where
  "watchStart r w =
     (if started r < launched r then
        (let r' = r\<lparr>started := Suc (started r)\<rparr> in
         if underWatch r' then r'
         else
           (case w of
              Some err \<Rightarrow> r'\<lparr>underWatch := False\<rparr>
            | None \<Rightarrow> r'\<lparr>underWatch := True, watching := Suc (watching r')\<rparr>))
      else r)"

text \<open>
  The deferred function of \<open>handleWatch\<close>, run when its loop returns.
\<close>

definition watchExit :: "'a Reflector \<Rightarrow> 'a Reflector" where
  "watchExit r =
     (if 0 < watching r then r\<lparr>underWatch := False, watching := watching r - 1\<rparr> else r)"

text \<open>
  The \<open>select\<close> loop of \<open>Run\<close> together with the goroutines launched for
  \<open>handleWatch\<close>, over the steps of a run up to the return of \<open>Run\<close>.
\<close>

fun RunLoop :: "'a Reflector \<Rightarrow> 'a tick list \<Rightarrow> 'a Reflector" where
  "RunLoop r [] = r"
| "RunLoop r (CxtDone # ticks) = r"
| "RunLoop r (SyncTick # ticks) = RunLoop (listAllData r) ticks"
| "RunLoop r (WatchTick # ticks) =
     RunLoop (if underWatch r then r else r\<lparr>launched := Suc (launched r)\<rparr>) ticks"
| "RunLoop r (WatchStart w # ticks) = RunLoop (watchStart r w) ticks"
| "RunLoop r (WatchEvent event # ticks) =
     RunLoop (if 0 < watching r then watchLoop r [event] else r) ticks"
| "RunLoop r (WatchExit # ticks) = RunLoop (watchExit r) ticks"

definition Run :: "'a Reflector \<Rightarrow> 'a tick list \<Rightarrow> 'a Reflector" where
  "Run r ticks =
     (let r1 = listAllData r; r2 = r1\<lparr>launched := Suc (launched r1)\<rparr> in RunLoop r2 ticks)"

section \<open>Inputs of the worked examples\<close>

text \<open>
  A key function for the examples on the store alone: an object is a pair of a name and
  a version, its key is the name, and the empty name has no key.
\<close>

abbreviation (input) ex_key :: "(string \<times> nat) ObjectKeyFunc" where
  "ex_key \<equiv> (\<lambda>(k, v). if k = [] then Inl ''empty name'' else Inr k)"

text \<open>
  Inputs for the examples on the reconciler: objects of namespace \<open>ns\<close> whose content is
  a number, keyed by namespace and name (an object with an empty name has no key), and
  a reconciler over a backend whose first \<open>List()\<close> fails and whose later ones return one
  object.
\<close>

abbreviation (input) ex_obj :: "string \<Rightarrow> (string \<times> string) list option \<Rightarrow> nat \<Rightarrow> nat Object" where
  "ex_obj n ann v \<equiv> \<lparr>Namespace = ''ns'', Name = n, Annotations = ann, Content = v\<rparr>"

abbreviation (input) ex_objkey :: "nat Object ObjectKeyFunc" where
  "ex_objkey \<equiv> (\<lambda>obj. if Name obj = [] then Inl ''empty name''
                       else Inr (Namespace obj @ ''/'' @ Name obj))"

abbreviation (input) ex_reflector :: "(string \<rightharpoonup> nat Object) \<Rightarrow> bool \<Rightarrow> nat \<Rightarrow> nat Reflector" where
  "ex_reflector m h n \<equiv>
     \<lparr>listWatch = (\<lambda>i. if i = 0 then Inl ''backend down'' else Inr [ex_obj ''a'' None 1]),
      store = \<lparr>dataMap = m, keyFunc = ex_objkey\<rparr>,
      handler = h, underWatch = False, listCalls = n, fired = [], launched = 0,
      started = 0, watching = 0\<rparr>"

section \<open>Properties of the store\<close>

lemma dataMap_upd_sel: "dataMap (c\<lparr>dataMap := A\<rparr>) = A"
  by simp

lemma dataMap_upd_upd: "c\<lparr>dataMap := A\<rparr>\<lparr>dataMap := B\<rparr> = c\<lparr>dataMap := B\<rparr>"
  by simp

lemma map_add_upsert:
  "m(key \<mapsto> item) ++ map_of (rev kvs) = m ++ map_of (rev ((key, item) # kvs))"
  by (simp add: map_add_assoc [symmetric])

lemma keyed_length:
  "map (keyFunc c) list = map Inr keys \<Longrightarrow> length keys = length list"
  by (metis length_map)

lemma dom_map_of_rev_zip:
  "length keys = length list \<Longrightarrow> dom (map_of (rev (zip keys list))) = set keys"
  by (simp add: dom_map_of_conv_image_fst flip: set_map)

text \<open>
  What the loop of \<open>Replace\<close> leaves when every key derivation succeeds: the map it
  started from, overwritten by the items in list order (a later item wins).
\<close>

lemma Replace_success:
  "map (keyFunc c) list = map Inr keys \<Longrightarrow>
     Replace c list = (None, c\<lparr>dataMap := dataMap c ++ map_of (rev (zip keys list))\<rparr>)"
proof (induction list arbitrary: c keys)
  case Nil
  then show ?case by simp
next
  case (Cons item list)
  then obtain key keys' where k: "keys = key # keys'" "keyFunc c item = Inr key"
    "map (keyFunc c) list = map Inr keys'"
    by (cases keys) auto
  let ?c = "c\<lparr>dataMap := (dataMap c)(key \<mapsto> item)\<rparr>"
  have "map (keyFunc ?c) list = map Inr keys'" using k by simp
  from Cons.IH [OF this]
  have "Replace ?c list =
          (None, c\<lparr>dataMap := (dataMap c)(key \<mapsto> item) ++ map_of (rev (zip keys' list))\<rparr>)"
    by (simp only: dataMap_upd_sel dataMap_upd_upd)
  also have "(dataMap c)(key \<mapsto> item) ++ map_of (rev (zip keys' list)) =
          dataMap c ++ map_of (rev (zip keys (item # list)))"
    unfolding k(1) zip_Cons_Cons by (rule map_add_upsert)
  finally show ?case using k(2) by (simp only: Replace.simps append_Cons sum.case)
qed

text \<open>And when the derivation fails at the item after \<open>pre\<close>.\<close>

lemma Replace_failure:
  "map (keyFunc c) pre = map Inr keys \<Longrightarrow> keyFunc c bad = Inl err \<Longrightarrow>
     Replace c (pre @ bad # post) =
       (Some (KeyError bad err), c\<lparr>dataMap := dataMap c ++ map_of (rev (zip keys pre))\<rparr>)"
proof (induction pre arbitrary: c keys)
  case Nil
  then show ?case by simp
next
  case (Cons item pre)
  then obtain key keys' where k: "keys = key # keys'" "keyFunc c item = Inr key"
    "map (keyFunc c) pre = map Inr keys'"
    by (cases keys) auto
  let ?c = "c\<lparr>dataMap := (dataMap c)(key \<mapsto> item)\<rparr>"
  have "map (keyFunc ?c) pre = map Inr keys'" "keyFunc ?c bad = Inl err"
    using k Cons.prems by simp_all
  from Cons.IH [OF this]
  have "Replace ?c (pre @ bad # post) =
          (Some (KeyError bad err),
           c\<lparr>dataMap := (dataMap c)(key \<mapsto> item) ++ map_of (rev (zip keys' pre))\<rparr>)"
    by (simp only: dataMap_upd_sel dataMap_upd_upd)
  also have "(dataMap c)(key \<mapsto> item) ++ map_of (rev (zip keys' pre)) =
          dataMap c ++ map_of (rev (zip keys (item # pre)))"
    unfolding k(1) zip_Cons_Cons by (rule map_add_upsert)
  finally show ?case using k(2) by (simp only: Replace.simps append_Cons sum.case)
qed

text \<open>An entry stored by the loop holds an item of the list under that item's key.\<close>

lemma stored_item_key:
  assumes "map kf list = map Inr keys"
    and "map_of (rev (zip keys list)) key = Some item"
  shows "item \<in> set list \<and> kf item = Inr key"
proof -
  from assms(2) have "(key, item) \<in> set (zip keys list)"
    by (auto dest: map_of_SomeD)
  then obtain i where i: "i < length keys" "i < length list" "keys ! i = key" "list ! i = item"
    by (auto simp: set_zip)
  have "map kf list ! i = map Inr keys ! i" using assms(1) by simp
  then have "kf item = Inr key" using i by simp
  then show ?thesis using i by auto
qed

lemma map_filter_stored:
  assumes "map kf list = map Inr keys"
    and "set ks \<subseteq> set keys"
  shows "map kf (List.map_filter (map_of (rev (zip keys list))) ks) = map Inr ks \<and>
         set (List.map_filter (map_of (rev (zip keys list))) ks) \<subseteq> set list"
  using assms(2)
proof (induction ks)
  case Nil
  then show ?case by (simp add: map_filter_simps)
next
  case (Cons k ks)
  have len: "length keys = length list" using assms(1) by (metis length_map)
  from Cons.prems have "k \<in> dom (map_of (rev (zip keys list)))"
    by (simp add: dom_map_of_rev_zip [OF len])
  then obtain item where it: "map_of (rev (zip keys list)) k = Some item" by auto
  from stored_item_key [OF assms(1) it] Cons show ?case
    by (simp add: map_filter_simps it)
qed

text \<open>
  C8. For every store \<open>c\<close> and object \<open>obj\<close> whose key derivation succeeds,
  \<open>Add(obj)\<close> returns no error and a following \<open>Get(obj)\<close> returns \<open>(obj, true)\<close>
  with no error.
\<close>

theorem Add_then_Get:
  "keyFunc c obj = Inr key \<Longrightarrow>
     fst (Add c obj) = None \<and> Get (snd (Add c obj)) obj = Inr (Some obj)"
  by (simp add: Add_def Get_def)

theorem Add_then_Get_witness:
  "keyFunc (NewCache ex_key) (''a'', 1) = Inr ''a'' \<and>
   fst (Add (NewCache ex_key) (''a'', 1)) = None \<and>
   Get (snd (Add (NewCache ex_key) (''a'', 1))) (''a'', 1) = Inr (Some (''a'', 1))"
proof -
  have h: "keyFunc (NewCache ex_key) (''a'', 1) = Inr ''a''"
    by (simp add: NewCache_def)
  show ?thesis using h Add_then_Get [OF h] by simp
qed

text \<open>
  C7. For every store \<open>c\<close> and object \<open>obj\<close> whose key derivation succeeds: when the key
  is present, \<open>Delete(obj)\<close> returns nil and removes that entry and no other, so that a
  following \<open>Get(obj)\<close> returns found = false; when the key is absent, \<open>Delete(obj)\<close>
  returns \<open>DataNoExist{obj}\<close> and the store is unchanged.
\<close>

theorem Delete_present_absent:
  "keyFunc c obj = Inr key \<Longrightarrow>
     (dataMap c key \<noteq> None \<longrightarrow>
        fst (Delete c obj) = None \<and>
        Get (snd (Delete c obj)) obj = Inr None \<and>
        snd (Delete c obj) = c\<lparr>dataMap := (dataMap c)(key := None)\<rparr>) \<and>
     (dataMap c key = None \<longrightarrow> Delete c obj = (Some (DataNoExist obj), c))"
  by (auto simp add: Delete_def Get_def)

theorem Delete_present_absent_witness:
  "keyFunc \<lparr>dataMap = [''a'' \<mapsto> (''a'', 1)], keyFunc = ex_key\<rparr> (''a'', 7) = Inr ''a'' \<and>
   keyFunc \<lparr>dataMap = [''a'' \<mapsto> (''a'', 1)], keyFunc = ex_key\<rparr> (''b'', 2) = Inr ''b'' \<and>
   Delete \<lparr>dataMap = [''a'' \<mapsto> (''a'', 1)], keyFunc = ex_key\<rparr> (''a'', 7) =
     (None, \<lparr>dataMap = Map.empty, keyFunc = ex_key\<rparr>) \<and>
   Get \<lparr>dataMap = Map.empty, keyFunc = ex_key\<rparr> (''a'', 7) = Inr None \<and>
   Delete \<lparr>dataMap = [''a'' \<mapsto> (''a'', 1)], keyFunc = ex_key\<rparr> (''b'', 2) =
     (Some (DataNoExist (''b'', 2)), \<lparr>dataMap = [''a'' \<mapsto> (''a'', 1)], keyFunc = ex_key\<rparr>)"
proof -
  let ?c = "\<lparr>dataMap = [''a'' \<mapsto> (''a'', 1::nat)], keyFunc = ex_key\<rparr>"
  have a: "keyFunc ?c (''a'', 7) = Inr ''a''" by simp
  have b: "keyFunc ?c (''b'', 2) = Inr ''b''" by simp
  have pa: "dataMap ?c ''a'' \<noteq> None" by simp
  have pb: "dataMap ?c ''b'' = None" by simp
  from Delete_present_absent [OF a] pa
  have 1: "fst (Delete ?c (''a'', 7)) = None"
    "Get (snd (Delete ?c (''a'', 7))) (''a'', 7) = Inr None"
    "snd (Delete ?c (''a'', 7)) = ?c\<lparr>dataMap := (dataMap ?c)(''a'' := None)\<rparr>"
    by blast+
  from Delete_present_absent [OF b] pb
  have 2: "Delete ?c (''b'', 2) = (Some (DataNoExist (''b'', 2)), ?c)"
    by blast
  have 3: "Delete ?c (''a'', 7) = (None, \<lparr>dataMap = Map.empty, keyFunc = ex_key\<rparr>)"
    using 1(1,3) by (simp add: prod_eq_iff)
  show ?thesis using a b 1(2) 2 3 by simp
qed

text \<open>
  C6. For every list whose key derivations all succeed (with keys \<open>keys\<close>, in list
  order), \<open>Replace(list)\<close> returns nil; the map afterwards is the map before overwritten
  by the items, a later item winning over an earlier one with the same key; an entry
  whose key is not a key of the list is as it was, present or absent; and every key of
  the list holds an item of the list that has this key.
\<close>

theorem Replace_upserts:
  fixes c :: "'o Cache"
  assumes "map (keyFunc c) list = map Inr keys"
  defines "c' \<equiv> snd (Replace c list)"
  shows "fst (Replace c list) = None \<and>
         keyFunc c' = keyFunc c \<and>
         dataMap c' = dataMap c ++ map_of (rev (zip keys list)) \<and>
         (\<forall>key. key \<notin> set keys \<longrightarrow> dataMap c' key = dataMap c key) \<and>
         (\<forall>key \<in> set keys. \<exists>item \<in> set list.
            keyFunc c item = Inr key \<and> dataMap c' key = Some item)"
proof -
  have len: "length keys = length list" using assms(1) by (rule keyed_length)
  have r: "Replace c list =
      (None, c\<lparr>dataMap := dataMap c ++ map_of (rev (zip keys list))\<rparr>)"
    using assms(1) by (rule Replace_success)
  have m: "dataMap c' = dataMap c ++ map_of (rev (zip keys list))"
    by (simp add: c'_def r)
  have frame: "dataMap c' key = dataMap c key" if "key \<notin> set keys" for key
  proof -
    from that have "key \<notin> dom (map_of (rev (zip keys list)))"
      by (simp only: dom_map_of_rev_zip [OF len] not_False_eq_True)
    then show ?thesis by (simp add: m map_add_dom_app_simps)
  qed
  have upd: "\<exists>item \<in> set list. keyFunc c item = Inr key \<and> dataMap c' key = Some item"
    if "key \<in> set keys" for key
  proof -
    from that have "key \<in> dom (map_of (rev (zip keys list)))"
      by (simp only: dom_map_of_rev_zip [OF len])
    then obtain item where it: "map_of (rev (zip keys list)) key = Some item" by auto
    then have "dataMap c' key = Some item" by (simp add: m map_add_Some_iff)
    with stored_item_key [OF assms(1) it] show ?thesis by auto
  qed
  show ?thesis using r m frame upd by (simp add: c'_def)
qed

theorem Replace_upserts_witness:
  "map (keyFunc \<lparr>dataMap = [''z'' \<mapsto> (''z'', 0), ''a'' \<mapsto> (''a'', 1)], keyFunc = ex_key\<rparr>)
     [(''a'', 2), (''b'', 3), (''a'', 4)] = map Inr [''a'', ''b'', ''a''] \<and>
   Replace \<lparr>dataMap = [''z'' \<mapsto> (''z'', 0), ''a'' \<mapsto> (''a'', 1)], keyFunc = ex_key\<rparr>
     [(''a'', 2), (''b'', 3), (''a'', 4)] =
   (None, \<lparr>dataMap = [''z'' \<mapsto> (''z'', 0), ''a'' \<mapsto> (''a'', 4), ''b'' \<mapsto> (''b'', 3)],
           keyFunc = ex_key\<rparr>)"
proof -
  let ?c = "\<lparr>dataMap = [''z'' \<mapsto> (''z'', 0::nat), ''a'' \<mapsto> (''a'', 1)], keyFunc = ex_key\<rparr>"
  have h: "map (keyFunc ?c) [(''a'', 2), (''b'', 3), (''a'', 4)] = map Inr [''a'', ''b'', ''a'']"
    by simp
  from Replace_upserts [OF h]
  have "fst (Replace ?c [(''a'', 2), (''b'', 3), (''a'', 4)]) = None"
    "keyFunc (snd (Replace ?c [(''a'', 2), (''b'', 3), (''a'', 4)])) = keyFunc ?c"
    "dataMap (snd (Replace ?c [(''a'', 2), (''b'', 3), (''a'', 4)])) =
       dataMap ?c ++ map_of (rev (zip [''a'', ''b'', ''a''] [(''a'', 2), (''b'', 3), (''a'', 4)]))"
    by blast+
  then have "Replace ?c [(''a'', 2), (''b'', 3), (''a'', 4)] =
      (None, \<lparr>dataMap = [''z'' \<mapsto> (''z'', 0), ''a'' \<mapsto> (''a'', 4), ''b'' \<mapsto> (''b'', 3)],
              keyFunc = ex_key\<rparr>)"
    by (simp add: prod_eq_iff fun_upd_twist)
  with h show ?thesis by simp
qed

text \<open>
  C9. When the key derivation fails with \<open>err\<close> on the item \<open>bad\<close> that follows the
  items \<open>pre\<close> (whose derivations succeed), whatever items \<open>post\<close> come after it:
  \<open>Replace\<close> returns \<open>KeyError{bad, err}\<close> and leaves the store exactly as
  \<open>Replace(pre)\<close> alone leaves it, the items of \<open>pre\<close> stored over the prior entries;
  \<open>Reset\<close> returns \<open>KeyError{bad, err}\<close> and leaves the store exactly as
  \<open>Reset(pre)\<close> alone leaves it, the prior entries gone and the keys of the store being
  the keys of \<open>pre\<close>.
\<close>

theorem Replace_Reset_partial:
  fixes c :: "'o Cache"
  assumes "map (keyFunc c) pre = map Inr keys" and "keyFunc c bad = Inl err"
  shows "Replace c (pre @ bad # post) =
           (Some (KeyError bad err), c\<lparr>dataMap := dataMap c ++ map_of (rev (zip keys pre))\<rparr>) \<and>
         Replace c pre = (None, c\<lparr>dataMap := dataMap c ++ map_of (rev (zip keys pre))\<rparr>) \<and>
         Reset c (pre @ bad # post) =
           (Some (KeyError bad err), c\<lparr>dataMap := map_of (rev (zip keys pre))\<rparr>) \<and>
         Reset c pre = (None, c\<lparr>dataMap := map_of (rev (zip keys pre))\<rparr>) \<and>
         dom (dataMap (snd (Reset c (pre @ bad # post)))) = set keys"
proof -
  let ?e = "c\<lparr>dataMap := Map.empty\<rparr>"
  have e: "map (keyFunc ?e) pre = map Inr keys" "keyFunc ?e bad = Inl err"
    using assms by simp_all
  have len: "length keys = length pre" using assms(1) by (rule keyed_length)
  have 1: "Replace c (pre @ bad # post) =
      (Some (KeyError bad err), c\<lparr>dataMap := dataMap c ++ map_of (rev (zip keys pre))\<rparr>)"
    using assms by (rule Replace_failure)
  have 2: "Replace c pre = (None, c\<lparr>dataMap := dataMap c ++ map_of (rev (zip keys pre))\<rparr>)"
    using assms(1) by (rule Replace_success)
  have 3: "Reset c (pre @ bad # post) =
      (Some (KeyError bad err), c\<lparr>dataMap := map_of (rev (zip keys pre))\<rparr>)"
    unfolding Reset_def Replace_failure [OF e]
    by (simp only: dataMap_upd_sel dataMap_upd_upd empty_map_add)
  have 4: "Reset c pre = (None, c\<lparr>dataMap := map_of (rev (zip keys pre))\<rparr>)"
    unfolding Reset_def Replace_success [OF e(1)]
    by (simp only: dataMap_upd_sel dataMap_upd_upd empty_map_add)
  have 5: "dom (dataMap (snd (Reset c (pre @ bad # post)))) = set keys"
    unfolding 3 by (simp only: snd_conv dataMap_upd_sel dom_map_of_rev_zip [OF len])
  show ?thesis using 1 2 3 4 5 by blast
qed

theorem Replace_Reset_partial_witness:
  "map (keyFunc \<lparr>dataMap = [''z'' \<mapsto> (''z'', 0)], keyFunc = ex_key\<rparr>) [(''a'', 1)] =
     map Inr [''a''] \<and>
   keyFunc \<lparr>dataMap = [''z'' \<mapsto> (''z'', 0)], keyFunc = ex_key\<rparr> ([], 2) = Inl ''empty name'' \<and>
   Replace \<lparr>dataMap = [''z'' \<mapsto> (''z'', 0)], keyFunc = ex_key\<rparr>
      [(''a'', 1), ([], 2), (''b'', 3)] =
     (Some (KeyError ([], 2) ''empty name''),
      \<lparr>dataMap = [''z'' \<mapsto> (''z'', 0), ''a'' \<mapsto> (''a'', 1)], keyFunc = ex_key\<rparr>) \<and>
   Reset \<lparr>dataMap = [''z'' \<mapsto> (''z'', 0)], keyFunc = ex_key\<rparr>
      [(''a'', 1), ([], 2), (''b'', 3)] =
     (Some (KeyError ([], 2) ''empty name''),
      \<lparr>dataMap = [''a'' \<mapsto> (''a'', 1)], keyFunc = ex_key\<rparr>)"
proof -
  let ?c = "\<lparr>dataMap = [''z'' \<mapsto> (''z'', 0::nat)], keyFunc = ex_key\<rparr>"
  have h1: "map (keyFunc ?c) [(''a'', 1)] = map Inr [''a'']" by simp
  have h2: "keyFunc ?c ([], 2) = Inl ''empty name''" by simp
  from Replace_Reset_partial [OF h1 h2, of "[(''b'', 3)]"]
  have "Replace ?c ([(''a'', 1)] @ ([], 2) # [(''b'', 3)]) =
      (Some (KeyError ([], 2) ''empty name''),
       ?c\<lparr>dataMap := dataMap ?c ++ map_of (rev (zip [''a''] [(''a'', 1)]))\<rparr>)"
    "Reset ?c ([(''a'', 1)] @ ([], 2) # [(''b'', 3)]) =
      (Some (KeyError ([], 2) ''empty name''),
       ?c\<lparr>dataMap := map_of (rev (zip [''a''] [(''a'', 1)]))\<rparr>)"
    by blast+
  with h1 h2 show ?thesis by simp
qed

text \<open>
  C5. For every list whose key derivations all succeed (with keys \<open>keys\<close>) and every
  prior store, \<open>Reset(list)\<close> returns nil, and afterwards the keys of the store are
  exactly the keys of the list, so every prior entry with another key is gone. In
  whatever order \<open>ks\<close> the following \<open>ListKeys()\<close> and \<open>List()\<close> visit the map:
  \<open>ListKeys()\<close> returns each key of the list once, \<open>List()\<close> returns as many items,
  each an item of the list, the one whose key is at the same place of \<open>ListKeys()\<close>;
  and \<open>Num()\<close> is the number of distinct keys of the list.
\<close>

theorem Reset_then_List:
  fixes c :: "'o Cache"
  assumes "map (keyFunc c) list = map Inr keys"
  defines "c' \<equiv> snd (Reset c list)"
  assumes "range_order (dataMap c') ks"
  shows "fst (Reset c list) = None \<and>
         dom (dataMap c') = set keys \<and>
         Num c' = card (set keys) \<and>
         ListKeys c' ks = ks \<and>
         set (ListKeys c' ks) = set keys \<and>
         length (ListKeys c' ks) = card (set keys) \<and>
         map (keyFunc c) (List c' ks) = map Inr ks \<and>
         length (List c' ks) = card (set keys) \<and>
         set (List c' ks) \<subseteq> set list"
proof -
  let ?m = "map_of (rev (zip keys list))"
  have len: "length keys = length list" using assms(1) by (rule keyed_length)
  have e: "map (keyFunc (c\<lparr>dataMap := Map.empty\<rparr>)) list = map Inr keys"
    using assms(1) by simp
  have r: "Reset c list = (None, c\<lparr>dataMap := ?m\<rparr>)"
    unfolding Reset_def Replace_success [OF e]
    by (simp only: dataMap_upd_sel dataMap_upd_upd empty_map_add)
  have m: "dataMap c' = ?m" unfolding c'_def r by (simp only: snd_conv dataMap_upd_sel)
  have d: "dom (dataMap c') = set keys" unfolding m by (rule dom_map_of_rev_zip [OF len])
  have ks: "distinct ks" "set ks = set keys"
    using assms(3) d by (simp_all add: range_order_def)
  have lk: "ListKeys c' ks = ks"
    unfolding ListKeys_def using ks(2) d by (auto intro: filter_True)
  have card: "length ks = card (set keys)"
    using ks by (metis distinct_card)
  have l: "map (keyFunc c) (List c' ks) = map Inr ks \<and> set (List c' ks) \<subseteq> set list"
    unfolding List_def m using assms(1) ks(2) by (intro map_filter_stored) simp_all
  then have "length (List c' ks) = length ks" by (metis length_map)
  then show ?thesis using r d lk ks card l by (simp add: Num_def)
qed

theorem Reset_then_List_witness:
  "map (keyFunc \<lparr>dataMap = [''z'' \<mapsto> (''z'', 0)], keyFunc = ex_key\<rparr>)
      [(''a'', 1), (''b'', 2), (''a'', 3)] = map Inr [''a'', ''b'', ''a''] \<and>
   range_order [''b'' \<mapsto> (''b'', 2::nat), ''a'' \<mapsto> (''a'', 3)] [''b'', ''a''] \<and>
   Reset \<lparr>dataMap = [''z'' \<mapsto> (''z'', 0)], keyFunc = ex_key\<rparr>
      [(''a'', 1), (''b'', 2), (''a'', 3)] =
     (None, \<lparr>dataMap = [''b'' \<mapsto> (''b'', 2), ''a'' \<mapsto> (''a'', 3)], keyFunc = ex_key\<rparr>) \<and>
   Num \<lparr>dataMap = [''b'' \<mapsto> (''b'', 2::nat), ''a'' \<mapsto> (''a'', 3)], keyFunc = ex_key\<rparr> = 2 \<and>
   ListKeys \<lparr>dataMap = [''b'' \<mapsto> (''b'', 2::nat), ''a'' \<mapsto> (''a'', 3)], keyFunc = ex_key\<rparr>
      [''b'', ''a''] = [''b'', ''a''] \<and>
   map ex_key
     (List \<lparr>dataMap = [''b'' \<mapsto> (''b'', 2), ''a'' \<mapsto> (''a'', 3)], keyFunc = ex_key\<rparr>
        [''b'', ''a'']) = [Inr ''b'', Inr ''a'']"
proof -
  let ?c = "\<lparr>dataMap = [''z'' \<mapsto> (''z'', 0::nat)], keyFunc = ex_key\<rparr>"
  let ?list = "[(''a'', 1::nat), (''b'', 2), (''a'', 3)]"
  let ?c' = "\<lparr>dataMap = [''b'' \<mapsto> (''b'', 2::nat), ''a'' \<mapsto> (''a'', 3)], keyFunc = ex_key\<rparr>"
  have h1: "map (keyFunc ?c) ?list = map Inr [''a'', ''b'', ''a'']" by simp
  have r: "Reset ?c ?list = (None, ?c')" by (simp add: Reset_def)
  have o: "range_order [''b'' \<mapsto> (''b'', 2::nat), ''a'' \<mapsto> (''a'', 3)] [''b'', ''a'']"
    by (simp add: range_order_def insert_commute)
  then have h2: "range_order (dataMap (snd (Reset ?c ?list))) [''b'', ''a'']"
    unfolding r by simp
  have k: "card (set [''a'', ''b'', ''a'']) = 2" by (simp add: card_insert_if)
  from Reset_then_List [OF h1 h2]
  have "Num (snd (Reset ?c ?list)) = card (set [''a'', ''b'', ''a''])"
    "ListKeys (snd (Reset ?c ?list)) [''b'', ''a''] = [''b'', ''a'']"
    "map (keyFunc ?c) (List (snd (Reset ?c ?list)) [''b'', ''a'']) = map Inr [''b'', ''a'']"
    by blast+
  then have "Num ?c' = 2" "ListKeys ?c' [''b'', ''a''] = [''b'', ''a'']"
    "map ex_key (List ?c' [''b'', ''a'']) = [Inr ''b'', Inr ''a'']"
    unfolding r k by simp_all
  with h1 o r show ?thesis by simp
qed

section \<open>Properties of the reconciler\<close>

lemma notify_fields [simp]:
  "store (notify r c) = store r"
  "handler (notify r c) = handler r"
  "underWatch (notify r c) = underWatch r"
  "listCalls (notify r c) = listCalls r"
  "launched (notify r c) = launched r"
  "started (notify r c) = started r"
  "watching (notify r c) = watching r"
  "listWatch (notify r c) = listWatch r"
  "fired (notify r c) = fired r @ (if handler r then [c] else [])"
  by (simp_all add: notify_def)

lemma keyFunc_upsert [simp]:
  "keyFunc (snd (Update c obj)) = keyFunc c"
  "keyFunc (snd (Add c obj)) = keyFunc c"
  "keyFunc (snd (Delete c obj)) = keyFunc c"
  by (simp_all add: Update_def Add_def Delete_def split: sum.splits option.splits)

lemma dom_upsert:
  "dom (dataMap c) \<subseteq> dom (dataMap (snd (Update c obj)))"
  "dom (dataMap c) \<subseteq> dom (dataMap (snd (Add c obj)))"
  by (auto simp add: Update_def Add_def split: sum.splits)

lemma listLoop_append: "listLoop r (xs @ ys) = listLoop (listLoop r xs) ys"
  by (induction xs arbitrary: r) simp_all

lemma listLoop_keeps:
  "handler (listLoop r objs) = handler r \<and>
   keyFunc (store (listLoop r objs)) = keyFunc (store r) \<and>
   listCalls (listLoop r objs) = listCalls r \<and>
   underWatch (listLoop r objs) = underWatch r \<and>
   launched (listLoop r objs) = launched r \<and>
   started (listLoop r objs) = started r \<and>
   watching (listLoop r objs) = watching r \<and>
   listWatch (listLoop r objs) = listWatch r"
  by (induction objs arbitrary: r) (simp_all split: sum.splits option.splits)

lemma listLoop_dom: "dom (dataMap (store r)) \<subseteq> dom (dataMap (store (listLoop r objs)))"
proof (induction objs arbitrary: r)
  case Nil
  then show ?case by simp
next
  case (Cons obj objs)
  let ?r = "case Get (store r) obj of
          Inl err \<Rightarrow> r
        | Inr (Some oldObj) \<Rightarrow>
            notify (r\<lparr>store := snd (Update (store r) obj)\<rparr>) (OnUpdate oldObj obj)
        | Inr None \<Rightarrow>
            notify (r\<lparr>store := snd (Add (store r) obj)\<rparr>) (OnAdd obj)"
  have "dom (dataMap (store r)) \<subseteq> dom (dataMap (store ?r))"
    using dom_upsert [of "store r" obj] by (simp split: sum.splits option.splits)
  also have "\<dots> \<subseteq> dom (dataMap (store (listLoop ?r objs)))" by (rule Cons.IH)
  finally show ?case by simp
qed

lemma notify_eq:
  "notify r c = r\<lparr>fired := fired r @ (if handler r then [c] else [])\<rparr>"
  by (simp add: notify_def)

lemma Get_found_upsert:
  assumes "Get c obj = Inr x"
  shows "fst (Update c obj) = None \<and> fst (Add c obj) = None \<and>
         Get (snd (Update c obj)) obj = Inr (Some obj) \<and>
         Get (snd (Add c obj)) obj = Inr (Some obj)"
  using assms by (auto simp add: Get_def Update_def Add_def split: sum.splits)

lemma index_eq_iff: "v \<noteq> [] \<Longrightarrow> index m k = v \<longleftrightarrow> map_of m k = Some v"
  by (auto simp add: index_def split: option.splits)

lemma Get_Some_Delete:
  assumes "Get c obj = Inr (Some old)"
  shows "fst (Delete c obj) = None \<and> Get (snd (Delete c obj)) obj = Inr None \<and>
         (\<exists>key. keyFunc c obj = Inr key \<and> dataMap c key = Some old \<and>
                snd (Delete c obj) = c\<lparr>dataMap := (dataMap c)(key := None)\<rparr>)"
  using assms by (auto simp add: Get_def Delete_def split: sum.splits)

text \<open>
  Handling events changes the store and the calls made on the handler, and nothing else
  of the reconciler.
\<close>

lemma process_keeps:
  "listCalls (processAddUpdate r ev) = listCalls r"
  "listCalls (processDeletion r ev) = listCalls r"
  "underWatch (processAddUpdate r ev) = underWatch r"
  "underWatch (processDeletion r ev) = underWatch r"
  "launched (processAddUpdate r ev) = launched r"
  "launched (processDeletion r ev) = launched r"
  "started (processAddUpdate r ev) = started r"
  "started (processDeletion r ev) = started r"
  "watching (processAddUpdate r ev) = watching r"
  "watching (processDeletion r ev) = watching r"
  by (simp_all add: processAddUpdate_def processDeletion_def Let_def
      split: sum.splits option.splits)

lemma watchLoop_keeps:
  "listCalls (watchLoop r evs) = listCalls r \<and>
   underWatch (watchLoop r evs) = underWatch r \<and>
   launched (watchLoop r evs) = launched r \<and>
   started (watchLoop r evs) = started r \<and>
   watching (watchLoop r evs) = watching r"
  by (induction evs arbitrary: r) (simp_all add: process_keeps split: EventType.splits)

lemma watchLoop_append: "watchLoop r (xs @ ys) = watchLoop (watchLoop r xs) ys"
  by (induction xs arbitrary: r) simp_all

lemma RunLoop_listCalls:
  "listCalls (RunLoop r ticks) =
     listCalls r + length (filter (\<lambda>t. t = SyncTick) (takeWhile (\<lambda>t. t \<noteq> CxtDone) ticks))"
proof (induction r ticks rule: RunLoop.induct)
  case (3 r ticks)
  have "listCalls (listAllData r) = Suc (listCalls r)"
    using listLoop_keeps [of "r\<lparr>listCalls := Suc (listCalls r)\<rparr>"]
    by (simp add: listAllData_def split: sum.splits)
  with 3 show ?case by simp
next
  case (5 r w ticks)
  have "listCalls (watchStart r w) = listCalls r"
    by (simp add: watchStart_def Let_def split: option.splits)
  with 5 show ?case by simp
next
  case (6 r event ticks)
  have "listCalls (if 0 < watching r then watchLoop r [event] else r) = listCalls r"
    using watchLoop_keeps [of r "[event]"] by simp
  with 6 show ?case by simp
next
  case (7 r ticks)
  have "listCalls (watchExit r) = listCalls r"
    by (simp add: watchExit_def)
  with 7 show ?case by simp
qed (auto split: if_splits)

text \<open>
  The steps of one launched goroutine, taken with nothing in between, are
  \<open>handleWatch\<close> run as a whole on the events its channel delivers.
\<close>

lemma RunLoop_events:
  "0 < watching r \<Longrightarrow>
     RunLoop r (map WatchEvent evs @ ticks) = RunLoop (watchLoop r evs) ticks"
proof (induction evs arbitrary: r)
  case Nil
  then show ?case by simp
next
  case (Cons ev evs)
  have "0 < watching (watchLoop r [ev])"
    using Cons.prems watchLoop_keeps [of r "[ev]"] by simp
  from Cons.IH [OF this] Cons.prems show ?case
    using watchLoop_append [of r "[ev]" evs] by simp
qed

lemma process_counters:
  "processAddUpdate (r\<lparr>started := n\<rparr>) ev = (processAddUpdate r ev)\<lparr>started := n\<rparr>"
  "processDeletion (r\<lparr>started := n\<rparr>) ev = (processDeletion r ev)\<lparr>started := n\<rparr>"
  "processAddUpdate (r\<lparr>watching := n\<rparr>) ev = (processAddUpdate r ev)\<lparr>watching := n\<rparr>"
  "processDeletion (r\<lparr>watching := n\<rparr>) ev = (processDeletion r ev)\<lparr>watching := n\<rparr>"
  "processAddUpdate (r\<lparr>underWatch := u\<rparr>) ev = (processAddUpdate r ev)\<lparr>underWatch := u\<rparr>"
  "processDeletion (r\<lparr>underWatch := u\<rparr>) ev = (processDeletion r ev)\<lparr>underWatch := u\<rparr>"
  by (simp_all add: processAddUpdate_def processDeletion_def notify_def Let_def
      split: sum.splits option.splits)

lemma watchLoop_counters:
  "watchLoop (r\<lparr>started := n\<rparr>) evs = (watchLoop r evs)\<lparr>started := n\<rparr>"
  "watchLoop (r\<lparr>watching := n\<rparr>) evs = (watchLoop r evs)\<lparr>watching := n\<rparr>"
  "watchLoop (r\<lparr>underWatch := u\<rparr>) evs = (watchLoop r evs)\<lparr>underWatch := u\<rparr>"
  by (induction evs arbitrary: r; simp add: process_counters split: EventType.splits)+

lemma RunLoop_handleWatch:
  assumes "started r < launched r" and "watching r = 0"
  shows "RunLoop r (WatchStart None # map WatchEvent evs @ [WatchExit]) =
           (handleWatch r (Inr evs))\<lparr>started := Suc (started r)\<rparr>"
proof (cases "underWatch r")
  case True
  have "RunLoop (r\<lparr>started := Suc (started r)\<rparr>) (map WatchEvent evs @ [WatchExit]) =
        r\<lparr>started := Suc (started r)\<rparr>"
    using assms(2) by (induction evs) (simp_all add: watchExit_def)
  with True assms(1) show ?thesis
    by (simp add: watchStart_def handleWatch_def Let_def)
next
  case False
  let ?r = "r\<lparr>started := Suc (started r), underWatch := True, watching := Suc (watching r)\<rparr>"
  have s: "watchStart r None = ?r"
    using False assms(1) by (simp add: watchStart_def Let_def)
  note w = watchLoop_counters
  have "RunLoop ?r (map WatchEvent evs @ [WatchExit]) = RunLoop (watchLoop ?r evs) [WatchExit]"
    by (rule RunLoop_events) simp
  also have "\<dots> = watchExit (watchLoop ?r evs)" by simp
  also have "\<dots> = (watchLoop ?r evs)\<lparr>underWatch := False, watching := watching r\<rparr>"
    using watchLoop_keeps [of ?r evs] by (simp add: watchExit_def)
  also have "\<dots> = (handleWatch r (Inr evs))\<lparr>started := Suc (started r)\<rparr>"
    using False assms(2) watchLoop_keeps [of "r\<lparr>underWatch := True\<rparr>" evs]
    by (simp add: handleWatch_def w)
  finally show ?thesis using s by simp
qed

text \<open>
  A run on a store that holds \<open>ns/z\<close>, with a backend whose first \<open>List()\<close> fails: the
  goroutine launched by \<open>Run\<close> begins and gets a watcher, the next watch tick finds
  \<open>underWatch\<close> set and launches nothing, the watcher delivers a Deleted event for
  \<open>ns/z\<close>, and the context is cancelled. The entry is gone, \<open>OnDelete\<close> was called
  with the payload, one goroutine was launched and \<open>List()\<close> was called once.
\<close>

lemma Run_example:
  "Run (ex_reflector [''ns/z'' \<mapsto> ex_obj ''z'' None 7] True 0)
     [WatchStart None, WatchTick,
      WatchEvent \<lparr>Type = EventDeleted, Data = ex_obj ''z'' None 0\<rparr>, CxtDone] =
   (ex_reflector Map.empty True 1)
     \<lparr>underWatch := True, fired := [OnDelete (ex_obj ''z'' None 0)],
      launched := 1, started := 1, watching := 1\<rparr>"
  by (simp add: Run_def listAllData_def watchStart_def processDeletion_def
      Get_def Delete_def notify_def Let_def)

text \<open>
  C1. Every object the reconciler processes is classified against the store by
  \<open>Get\<close>, in the full pass (the object \<open>obj\<close> that follows the objects \<open>objs\<close> of
  a successful \<open>List()\<close>) and for the payload of an Added, Updated or Synced event
  (which \<open>handleWatch\<close> hands to \<open>processAddUpdate\<close>). When \<open>Get\<close> finds an entry
  \<open>old\<close>, the store becomes what \<open>Update\<close> returns and \<open>OnUpdate(old, obj)\<close> is
  called; when \<open>Get\<close> reports the key absent, the store becomes what \<open>Add\<close> returns
  and \<open>OnAdd(obj)\<close> is called. In both cases the upsert succeeds and the store then
  holds the object under its key. With a nil handler no call is made. Nothing else of
  the reconciler changes.
\<close>

theorem classify_add_update:
  fixes r :: "'a Reflector" and objs :: "'a Object list"
  defines "r1 \<equiv> listLoop r objs"
  shows
   "(listWatch r (listCalls r) = Inr objs \<longrightarrow>
       listAllData r = listLoop (r\<lparr>listCalls := Suc (listCalls r)\<rparr>) objs) \<and>
    (Get (store r1) obj = Inr (Some old) \<longrightarrow>
       listLoop r (objs @ [obj]) =
         r1\<lparr>store := snd (Update (store r1) obj),
            fired := fired r1 @ (if handler r then [OnUpdate old obj] else [])\<rparr> \<and>
       fst (Update (store r1) obj) = None \<and>
       Get (snd (Update (store r1) obj)) obj = Inr (Some obj)) \<and>
    (Get (store r1) obj = Inr None \<longrightarrow>
       listLoop r (objs @ [obj]) =
         r1\<lparr>store := snd (Add (store r1) obj),
            fired := fired r1 @ (if handler r then [OnAdd obj] else [])\<rparr> \<and>
       fst (Add (store r1) obj) = None \<and>
       Get (snd (Add (store r1) obj)) obj = Inr (Some obj)) \<and>
    (Type ev \<in> {EventSync, EventAdded, EventUpdated} \<longrightarrow>
       watchLoop r (ev # evs) = watchLoop (processAddUpdate r ev) evs) \<and>
    (Get (store r) (Data ev) = Inr (Some old) \<longrightarrow>
       processAddUpdate r ev =
         r\<lparr>store := snd (Update (store r) (Data ev)),
           fired := fired r @ (if handler r then [OnUpdate old (Data ev)] else [])\<rparr> \<and>
       fst (Update (store r) (Data ev)) = None \<and>
       Get (snd (Update (store r) (Data ev))) (Data ev) = Inr (Some (Data ev))) \<and>
    (Get (store r) (Data ev) = Inr None \<longrightarrow>
       processAddUpdate r ev =
         r\<lparr>store := snd (Add (store r) (Data ev)),
           fired := fired r @ (if handler r then [OnAdd (Data ev)] else [])\<rparr> \<and>
       fst (Add (store r) (Data ev)) = None \<and>
       Get (snd (Add (store r) (Data ev))) (Data ev) = Inr (Some (Data ev)))"
proof -
  have h: "handler r1 = handler r" unfolding r1_def using listLoop_keeps by blast
  have 1: "listWatch r (listCalls r) = Inr objs \<Longrightarrow>
       listAllData r = listLoop (r\<lparr>listCalls := Suc (listCalls r)\<rparr>) objs"
    by (simp add: listAllData_def)
  have step: "listLoop r (objs @ [obj]) = listLoop r1 [obj]"
    unfolding r1_def by (rule listLoop_append)
  have 2: "listLoop r (objs @ [obj]) =
         r1\<lparr>store := snd (Update (store r1) obj),
            fired := fired r1 @ (if handler r then [OnUpdate old obj] else [])\<rparr>"
    if "Get (store r1) obj = Inr (Some old)"
    unfolding step using that h by (simp add: notify_eq)
  have 3: "listLoop r (objs @ [obj]) =
         r1\<lparr>store := snd (Add (store r1) obj),
            fired := fired r1 @ (if handler r then [OnAdd obj] else [])\<rparr>"
    if "Get (store r1) obj = Inr None"
    unfolding step using that h by (simp add: notify_eq)
  have 4: "watchLoop r (ev # evs) = watchLoop (processAddUpdate r ev) evs"
    if "Type ev \<in> {EventSync, EventAdded, EventUpdated}"
    using that by auto
  have 5: "processAddUpdate r ev =
         r\<lparr>store := snd (Update (store r) (Data ev)),
           fired := fired r @ (if handler r then [OnUpdate old (Data ev)] else [])\<rparr>"
    if "Get (store r) (Data ev) = Inr (Some old)"
    using that by (simp add: processAddUpdate_def notify_eq)
  have 6: "processAddUpdate r ev =
         r\<lparr>store := snd (Add (store r) (Data ev)),
           fired := fired r @ (if handler r then [OnAdd (Data ev)] else [])\<rparr>"
    if "Get (store r) (Data ev) = Inr None"
    using that by (simp add: processAddUpdate_def notify_eq)
  show ?thesis
    using 1 2 3 4 5 6 Get_found_upsert [of "store r1" obj] Get_found_upsert [of "store r" "Data ev"]
    by blast
qed

theorem classify_add_update_witness:
  "listWatch (ex_reflector Map.empty True 1) (listCalls (ex_reflector Map.empty True 1)) =
     Inr [ex_obj ''a'' None 1] \<and>
   listAllData (ex_reflector Map.empty True 1) =
     (ex_reflector [''ns/a'' \<mapsto> ex_obj ''a'' None 1] True 2)\<lparr>fired := [OnAdd (ex_obj ''a'' None 1)]\<rparr> \<and>
   Get (store (listLoop (ex_reflector Map.empty True 1) [ex_obj ''a'' None 1])) (ex_obj ''a'' None 2) =
     Inr (Some (ex_obj ''a'' None 1)) \<and>
   listLoop (ex_reflector Map.empty True 1) [ex_obj ''a'' None 1, ex_obj ''a'' None 2] =
     (ex_reflector [''ns/a'' \<mapsto> ex_obj ''a'' None 2] True 1)
       \<lparr>fired := [OnAdd (ex_obj ''a'' None 1), OnUpdate (ex_obj ''a'' None 1) (ex_obj ''a'' None 2)]\<rparr> \<and>
   Get (store (ex_reflector Map.empty True 1)) (ex_obj ''a'' None 1) = Inr None \<and>
   processAddUpdate (ex_reflector Map.empty True 1) \<lparr>Type = EventAdded, Data = ex_obj ''a'' None 1\<rparr> =
     (ex_reflector [''ns/a'' \<mapsto> ex_obj ''a'' None 1] True 1)\<lparr>fired := [OnAdd (ex_obj ''a'' None 1)]\<rparr> \<and>
   Get (store (ex_reflector [''ns/a'' \<mapsto> ex_obj ''a'' None 1] False 1)) (ex_obj ''a'' None 2) =
     Inr (Some (ex_obj ''a'' None 1)) \<and>
   processAddUpdate (ex_reflector [''ns/a'' \<mapsto> ex_obj ''a'' None 1] False 1)
       \<lparr>Type = EventUpdated, Data = ex_obj ''a'' None 2\<rparr> =
     ex_reflector [''ns/a'' \<mapsto> ex_obj ''a'' None 2] False 1 \<and>
   Get (store (ex_reflector [''ns/a'' \<mapsto> ex_obj ''a'' None 1] False 1)) (ex_obj ''b'' None 5) =
     Inr None \<and>
   listLoop (ex_reflector [''ns/a'' \<mapsto> ex_obj ''a'' None 1] False 1) [ex_obj ''b'' None 5] =
     ex_reflector [''ns/a'' \<mapsto> ex_obj ''a'' None 1, ''ns/b'' \<mapsto> ex_obj ''b'' None 5] False 1"
proof -
  let ?A1 = "ex_obj ''a'' None 1" and ?A2 = "ex_obj ''a'' None 2" and ?B = "ex_obj ''b'' None 5"
  let ?R = "ex_reflector Map.empty True 1"
  let ?R' = "ex_reflector [''ns/a'' \<mapsto> ?A1] False 1"
  let ?evA = "\<lparr>Type = EventAdded, Data = ?A1\<rparr>"
  let ?evU = "\<lparr>Type = EventUpdated, Data = ?A2\<rparr>"
  note defs = Get_def Add_def Update_def notify_def
  have h1: "listWatch ?R (listCalls ?R) = Inr [?A1]" by simp
  have h2: "Get (store (listLoop ?R [?A1])) ?A2 = Inr (Some ?A1)" by (simp add: defs)
  have h4: "Type ?evA \<in> {EventSync, EventAdded, EventUpdated}" by simp
  have h6: "Get (store ?R) (Data ?evA) = Inr None" by (simp add: defs)
  note T1 = classify_add_update [of ?R "[?A1]" ?A2 ?A1 ?evA "[]"]
  from T1 h1 have c1: "listAllData ?R = listLoop (?R\<lparr>listCalls := Suc (listCalls ?R)\<rparr>) [?A1]"
    by blast
  from T1 h2 have c2: "listLoop ?R ([?A1] @ [?A2]) =
      (listLoop ?R [?A1])\<lparr>store := snd (Update (store (listLoop ?R [?A1])) ?A2),
         fired := fired (listLoop ?R [?A1]) @ (if handler ?R then [OnUpdate ?A1 ?A2] else [])\<rparr>"
    by blast
  from T1 h6 have c6: "processAddUpdate ?R ?evA =
      ?R\<lparr>store := snd (Add (store ?R) (Data ?evA)),
         fired := fired ?R @ (if handler ?R then [OnAdd (Data ?evA)] else [])\<rparr>"
    by blast
  have h3: "Get (store (listLoop ?R' [])) ?B = Inr None" by (simp add: defs)
  have h5: "Get (store ?R') (Data ?evU) = Inr (Some ?A1)" by (simp add: defs)
  note T2 = classify_add_update [of ?R' "[]" ?B ?A1 ?evU "[]"]
  from T2 h3 have c3: "listLoop ?R' ([] @ [?B]) =
      (listLoop ?R' [])\<lparr>store := snd (Add (store (listLoop ?R' [])) ?B),
         fired := fired (listLoop ?R' []) @ (if handler ?R' then [OnAdd ?B] else [])\<rparr>"
    by blast
  from T2 h5 have c5: "processAddUpdate ?R' ?evU =
      ?R'\<lparr>store := snd (Update (store ?R') (Data ?evU)),
         fired := fired ?R' @ (if handler ?R' then [OnUpdate ?A1 (Data ?evU)] else [])\<rparr>"
    by blast
  have e1: "listAllData ?R = (ex_reflector [''ns/a'' \<mapsto> ?A1] True 2)\<lparr>fired := [OnAdd ?A1]\<rparr>"
    unfolding c1 by (simp add: defs)
  have e2: "listLoop ?R [?A1, ?A2] =
      (ex_reflector [''ns/a'' \<mapsto> ?A2] True 1)\<lparr>fired := [OnAdd ?A1, OnUpdate ?A1 ?A2]\<rparr>"
    using c2 by (simp add: defs)
  have e6: "processAddUpdate ?R ?evA = (ex_reflector [''ns/a'' \<mapsto> ?A1] True 1)\<lparr>fired := [OnAdd ?A1]\<rparr>"
    unfolding c6 by (simp add: defs)
  have e3: "listLoop ?R' [?B] = ex_reflector [''ns/a'' \<mapsto> ?A1, ''ns/b'' \<mapsto> ?B] False 1"
    using c3 by (simp add: defs)
  have e5: "processAddUpdate ?R' ?evU = ex_reflector [''ns/a'' \<mapsto> ?A2] False 1"
    unfolding c5 by (simp add: defs)
  show ?thesis
    using h1 h2 h3 h5 h6 e1 e2 e3 e5 e6 by simp
qed

text \<open>
  C2. A Deleted event is handed to \<open>processDeletion\<close>. When the key of its payload is
  present in the store with value \<open>old\<close>: \<open>Delete\<close> succeeds, that entry and no
  other is removed, and \<open>OnDelete\<close> is called (when there is a handler) with the
  payload of the event, unless the annotations of the payload are not nil and map
  \<open>bk-bcs-inner-storage\<close> to \<open>bkbcs-zookeeper\<close>; then it is called with \<open>old\<close>.
  When the key is absent, the reconciler is unchanged (no store change, no call) and the
  loop goes on with the events that follow.
\<close>

theorem deletion_event:
  fixes r :: "'a Reflector"
  shows
   "(Type ev = EventDeleted \<longrightarrow> watchLoop r (ev # evs) = watchLoop (processDeletion r ev) evs) \<and>
    (Get (store r) (Data ev) = Inr (Some old) \<longrightarrow>
       processDeletion r ev =
         r\<lparr>store := snd (Delete (store r) (Data ev)),
           fired := fired r @
             (if handler r
              then [OnDelete
                (if (case Annotations (Data ev) of
                       None \<Rightarrow> False
                     | Some m \<Rightarrow> map_of m ''bk-bcs-inner-storage'' = Some ''bkbcs-zookeeper'')
                 then old else Data ev)]
              else [])\<rparr> \<and>
       fst (Delete (store r) (Data ev)) = None \<and>
       Get (store (processDeletion r ev)) (Data ev) = Inr None \<and>
       (\<exists>key. keyFunc (store r) (Data ev) = Inr key \<and>
          dataMap (store r) key = Some old \<and>
          dataMap (store (processDeletion r ev)) = (dataMap (store r))(key := None))) \<and>
    (Get (store r) (Data ev) = Inr None \<longrightarrow>
       processDeletion r ev = r \<and>
       (Type ev = EventDeleted \<longrightarrow> watchLoop r (ev # evs) = watchLoop r evs))"
proof -
  have 1: "watchLoop r (ev # evs) = watchLoop (processDeletion r ev) evs"
    if "Type ev = EventDeleted"
    using that by simp
  have zk: "(case Annotations (Data ev) of
               None \<Rightarrow> False
             | Some m \<Rightarrow> index m ''bk-bcs-inner-storage'' = ''bkbcs-zookeeper'') =
            (case Annotations (Data ev) of
               None \<Rightarrow> False
             | Some m \<Rightarrow> map_of m ''bk-bcs-inner-storage'' = Some ''bkbcs-zookeeper'')"
    by (simp add: index_eq_iff split: option.splits)
  have 2: "processDeletion r ev =
         r\<lparr>store := snd (Delete (store r) (Data ev)),
           fired := fired r @
             (if handler r
              then [OnDelete
                (if (case Annotations (Data ev) of
                       None \<Rightarrow> False
                     | Some m \<Rightarrow> map_of m ''bk-bcs-inner-storage'' = Some ''bkbcs-zookeeper'')
                 then old else Data ev)]
              else [])\<rparr>"
    if "Get (store r) (Data ev) = Inr (Some old)"
    unfolding zk [symmetric] using that
    by (simp add: processDeletion_def notify_eq Let_def)
  have 3: "store (processDeletion r ev) = snd (Delete (store r) (Data ev))"
    if "Get (store r) (Data ev) = Inr (Some old)"
    using that by (simp add: processDeletion_def Let_def)
  have 4: "processDeletion r ev = r" if "Get (store r) (Data ev) = Inr None"
    using that by (simp add: processDeletion_def)
  have 5: "fst (Delete (store r) (Data ev)) = None \<and>
       Get (store (processDeletion r ev)) (Data ev) = Inr None \<and>
       (\<exists>key. keyFunc (store r) (Data ev) = Inr key \<and>
          dataMap (store r) key = Some old \<and>
          dataMap (store (processDeletion r ev)) = (dataMap (store r))(key := None))"
    if g: "Get (store r) (Data ev) = Inr (Some old)"
  proof -
    from Get_Some_Delete [OF g] obtain key where
      k: "fst (Delete (store r) (Data ev)) = None"
         "Get (snd (Delete (store r) (Data ev))) (Data ev) = Inr None"
         "keyFunc (store r) (Data ev) = Inr key" "dataMap (store r) key = Some old"
         "snd (Delete (store r) (Data ev)) = (store r)\<lparr>dataMap := (dataMap (store r))(key := None)\<rparr>"
      by blast
    have "dataMap (store (processDeletion r ev)) = (dataMap (store r))(key := None)"
      unfolding 3 [OF g] k(5) by (rule dataMap_upd_sel)
    with k show ?thesis unfolding 3 [OF g] by blast
  qed
  have 6: "watchLoop r (ev # evs) = watchLoop r evs"
    if "Get (store r) (Data ev) = Inr None" "Type ev = EventDeleted"
    using that 4 by simp
  show ?thesis using 1 2 4 5 6 by blast
qed

theorem deletion_event_witness:
  "Get (store (ex_reflector [''ns/a'' \<mapsto> ex_obj ''a'' None 1] True 1))
     (ex_obj ''a'' (Some [(''bk-bcs-inner-storage'', ''bkbcs-zookeeper'')]) 0) =
     Inr (Some (ex_obj ''a'' None 1)) \<and>
   processDeletion (ex_reflector [''ns/a'' \<mapsto> ex_obj ''a'' None 1] True 1)
     \<lparr>Type = EventDeleted,
      Data = ex_obj ''a'' (Some [(''bk-bcs-inner-storage'', ''bkbcs-zookeeper'')]) 0\<rparr> =
     (ex_reflector Map.empty True 1)\<lparr>fired := [OnDelete (ex_obj ''a'' None 1)]\<rparr> \<and>
   Get (store (ex_reflector [''ns/a'' \<mapsto> ex_obj ''a'' None 1] True 1))
     (ex_obj ''a'' (Some [(''owner'', ''x'')]) 9) = Inr (Some (ex_obj ''a'' None 1)) \<and>
   processDeletion (ex_reflector [''ns/a'' \<mapsto> ex_obj ''a'' None 1] True 1)
     \<lparr>Type = EventDeleted, Data = ex_obj ''a'' (Some [(''owner'', ''x'')]) 9\<rparr> =
     (ex_reflector Map.empty True 1)
       \<lparr>fired := [OnDelete (ex_obj ''a'' (Some [(''owner'', ''x'')]) 9)]\<rparr> \<and>
   Get (store (ex_reflector [''ns/a'' \<mapsto> ex_obj ''a'' None 1] True 1)) (ex_obj ''b'' None 0) =
     Inr None \<and>
   processDeletion (ex_reflector [''ns/a'' \<mapsto> ex_obj ''a'' None 1] True 1)
     \<lparr>Type = EventDeleted, Data = ex_obj ''b'' None 0\<rparr> =
     ex_reflector [''ns/a'' \<mapsto> ex_obj ''a'' None 1] True 1 \<and>
   watchLoop (ex_reflector [''ns/a'' \<mapsto> ex_obj ''a'' None 1] True 1)
     [\<lparr>Type = EventDeleted, Data = ex_obj ''b'' None 0\<rparr>,
      \<lparr>Type = EventDeleted, Data = ex_obj ''a'' None 3\<rparr>] =
     (ex_reflector Map.empty True 1)\<lparr>fired := [OnDelete (ex_obj ''a'' None 3)]\<rparr>"
proof -
  let ?A1 = "ex_obj ''a'' None 1"
  let ?Z = "ex_obj ''a'' (Some [(''bk-bcs-inner-storage'', ''bkbcs-zookeeper'')]) 0"
  let ?O = "ex_obj ''a'' (Some [(''owner'', ''x'')]) 9"
  let ?B = "ex_obj ''b'' None 0"
  let ?R = "ex_reflector [''ns/a'' \<mapsto> ?A1] True 1"
  let ?evZ = "\<lparr>Type = EventDeleted, Data = ?Z\<rparr>"
  let ?evO = "\<lparr>Type = EventDeleted, Data = ?O\<rparr>"
  let ?evB = "\<lparr>Type = EventDeleted, Data = ?B\<rparr>"
  let ?evA = "\<lparr>Type = EventDeleted, Data = ex_obj ''a'' None 3\<rparr>"
  note defs = Get_def Delete_def notify_def
  have hZ: "Get (store ?R) (Data ?evZ) = Inr (Some ?A1)" by (simp add: defs)
  have hO: "Get (store ?R) (Data ?evO) = Inr (Some ?A1)" by (simp add: defs)
  have hB: "Get (store ?R) (Data ?evB) = Inr None" by (simp add: defs)
  have tB: "Type ?evB = EventDeleted" by simp
  from deletion_event [of ?evZ ?R "[]" ?A1] hZ
  have cZ: "processDeletion ?R ?evZ =
      ?R\<lparr>store := snd (Delete (store ?R) (Data ?evZ)),
         fired := fired ?R @
           (if handler ?R
            then [OnDelete
              (if (case Annotations (Data ?evZ) of
                     None \<Rightarrow> False
                   | Some m \<Rightarrow> map_of m ''bk-bcs-inner-storage'' = Some ''bkbcs-zookeeper'')
               then ?A1 else Data ?evZ)]
            else [])\<rparr>"
    by blast
  from deletion_event [of ?evO ?R "[]" ?A1] hO
  have cO: "processDeletion ?R ?evO =
      ?R\<lparr>store := snd (Delete (store ?R) (Data ?evO)),
         fired := fired ?R @
           (if handler ?R
            then [OnDelete
              (if (case Annotations (Data ?evO) of
                     None \<Rightarrow> False
                   | Some m \<Rightarrow> map_of m ''bk-bcs-inner-storage'' = Some ''bkbcs-zookeeper'')
               then ?A1 else Data ?evO)]
            else [])\<rparr>"
    by blast
  from deletion_event [of ?evB ?R "[?evA]" ?A1] hB tB
  have cB: "processDeletion ?R ?evB = ?R" "watchLoop ?R (?evB # [?evA]) = watchLoop ?R [?evA]"
    by blast+
  have eZ: "processDeletion ?R ?evZ = (ex_reflector Map.empty True 1)\<lparr>fired := [OnDelete ?A1]\<rparr>"
    unfolding cZ by (simp add: defs)
  have eO: "processDeletion ?R ?evO = (ex_reflector Map.empty True 1)\<lparr>fired := [OnDelete ?O]\<rparr>"
    unfolding cO by (simp add: defs)
  have eB: "watchLoop ?R [?evB, ?evA] =
      (ex_reflector Map.empty True 1)\<lparr>fired := [OnDelete (ex_obj ''a'' None 3)]\<rparr>"
    unfolding cB(2) by (simp add: processDeletion_def index_def defs)
  show ?thesis using hZ hO hB eZ eO cB(1) eB by simp
qed

text \<open>
  C3. A full pass never removes an entry: whatever the store holds and whatever
  \<open>List()\<close> returns, error or objects, every key of the store before \<open>listAllData\<close>
  is a key of the store after it. The same holds for the loop of the pass on any list
  and for \<open>processAddUpdate\<close>. Removal happens on the watch path: \<open>processDeletion\<close>
  on an event whose key is present leaves a store that lacks a key it had.
\<close>

theorem full_sync_keeps_keys:
  fixes r :: "'a Reflector"
  shows "dom (dataMap (store r)) \<subseteq> dom (dataMap (store (listAllData r))) \<and>
         dom (dataMap (store r)) \<subseteq> dom (dataMap (store (listLoop r objs))) \<and>
         dom (dataMap (store r)) \<subseteq> dom (dataMap (store (processAddUpdate r ev))) \<and>
         (Get (store r) (Data ev) = Inr (Some old) \<longrightarrow>
            \<not> dom (dataMap (store r)) \<subseteq> dom (dataMap (store (processDeletion r ev))))"
proof -
  have a: "dom (dataMap (store r)) \<subseteq> dom (dataMap (store (listAllData r)))"
    using listLoop_dom [of "r\<lparr>listCalls := Suc (listCalls r)\<rparr>"]
    by (simp add: listAllData_def split: sum.splits)
  have d: "dom (dataMap (store r)) \<subseteq> dom (dataMap (store (processAddUpdate r ev)))"
    using dom_upsert [of "store r" "Data ev"]
    by (simp add: processAddUpdate_def split: sum.splits option.splits)
  have e: "\<not> dom (dataMap (store r)) \<subseteq> dom (dataMap (store (processDeletion r ev)))"
    if g: "Get (store r) (Data ev) = Inr (Some old)"
  proof -
    from Get_Some_Delete [OF g] obtain key where
      k: "dataMap (store r) key = Some old"
         "snd (Delete (store r) (Data ev)) = (store r)\<lparr>dataMap := (dataMap (store r))(key := None)\<rparr>"
      by blast
    have "store (processDeletion r ev) = snd (Delete (store r) (Data ev))"
      using g by (simp add: processDeletion_def Let_def)
    then have "dataMap (store (processDeletion r ev)) = (dataMap (store r))(key := None)"
      unfolding k(2) by (simp only: dataMap_upd_sel)
    then have "key \<notin> dom (dataMap (store (processDeletion r ev)))" by simp
    moreover have "key \<in> dom (dataMap (store r))" using k(1) by auto
    ultimately show ?thesis by blast
  qed
  show ?thesis using a d e listLoop_dom by blast
qed

theorem full_sync_keeps_keys_witness:
  "dom (dataMap (store (ex_reflector [''ns/z'' \<mapsto> ex_obj ''z'' None 7] True 1))) = {''ns/z''} \<and>
   ''ns/z'' \<in> dom (dataMap (store (listAllData
      (ex_reflector [''ns/z'' \<mapsto> ex_obj ''z'' None 7] True 1)))) \<and>
   Get (store (ex_reflector [''ns/z'' \<mapsto> ex_obj ''z'' None 7] True 1)) (ex_obj ''z'' None 0) =
     Inr (Some (ex_obj ''z'' None 7)) \<and>
   \<not> dom (dataMap (store (ex_reflector [''ns/z'' \<mapsto> ex_obj ''z'' None 7] True 1)))
      \<subseteq> dom (dataMap (store (processDeletion
            (ex_reflector [''ns/z'' \<mapsto> ex_obj ''z'' None 7] True 1)
            \<lparr>Type = EventDeleted, Data = ex_obj ''z'' None 0\<rparr>))) \<and>
   dom (dataMap (store (processDeletion (ex_reflector [''ns/z'' \<mapsto> ex_obj ''z'' None 7] True 1)
      \<lparr>Type = EventDeleted, Data = ex_obj ''z'' None 0\<rparr>))) = {}"
proof -
  let ?Z = "ex_obj ''z'' None 7"
  let ?R = "ex_reflector [''ns/z'' \<mapsto> ?Z] True 1"
  let ?ev = "\<lparr>Type = EventDeleted, Data = ex_obj ''z'' None 0\<rparr>"
  note defs = Get_def Delete_def notify_def
  have d: "dom (dataMap (store ?R)) = {''ns/z''}" by simp
  have g: "Get (store ?R) (Data ?ev) = Inr (Some ?Z)" by (simp add: defs)
  note T = full_sync_keeps_keys [of ?R "[]" ?ev ?Z]
  from T have "dom (dataMap (store ?R)) \<subseteq> dom (dataMap (store (listAllData ?R)))"
    by blast
  then have 1: "''ns/z'' \<in> dom (dataMap (store (listAllData ?R)))"
    unfolding d by blast
  from T g have 2: "\<not> dom (dataMap (store ?R)) \<subseteq> dom (dataMap (store (processDeletion ?R ?ev)))"
    by blast
  have 3: "dom (dataMap (store (processDeletion ?R ?ev))) = {}"
    by (simp add: processDeletion_def defs)
  have g': "Get (store ?R) (ex_obj ''z'' None 0) = Inr (Some ?Z)" using g by simp
  from d 1 g' 2 3 show ?thesis by (intro conjI)
qed

text \<open>
  C4. When \<open>List()\<close> returns an error, \<open>listAllData\<close> returns with the store and the
  calls made on the handler unchanged; the reconciler differs only in the count of
  \<open>List()\<close> calls, which grows by one, as it does in every pass: the failed call is
  not repeated within the pass. The goroutine of \<open>Run\<close> runs one pass for each resync
  tick, so up to cancellation the number of \<open>List()\<close> calls in a run is the number of
  resync ticks, whether the calls fail or not and whatever the watch goroutines do in
  between; the next call after a failure is the one of the next resync tick. Within a successful pass, an object for which \<open>Get\<close> fails
  is skipped: the pass ends as it does on the list without that object.
\<close>

theorem list_failure_and_skip:
  fixes r :: "'a Reflector"
  shows
   "(listWatch r (listCalls r) = Inl err \<longrightarrow>
       listAllData r = r\<lparr>listCalls := Suc (listCalls r)\<rparr>) \<and>
    listCalls (listAllData r) = Suc (listCalls r) \<and>
    RunLoop r (SyncTick # ticks) = RunLoop (listAllData r) ticks \<and>
    listCalls (RunLoop r ticks) =
      listCalls r + length (filter (\<lambda>t. t = SyncTick) (takeWhile (\<lambda>t. t \<noteq> CxtDone) ticks)) \<and>
    (Get (store (listLoop r pre)) obj = Inl e \<longrightarrow>
       listLoop r (pre @ obj # post) = listLoop r (pre @ post))"
proof -
  have 1: "listAllData r = r\<lparr>listCalls := Suc (listCalls r)\<rparr>"
    if "listWatch r (listCalls r) = Inl err"
    using that by (simp add: listAllData_def)
  have 2: "listCalls (listAllData r) = Suc (listCalls r)"
    using listLoop_keeps [of "r\<lparr>listCalls := Suc (listCalls r)\<rparr>"]
    by (simp add: listAllData_def split: sum.splits)
  have 3: "listLoop r (pre @ obj # post) = listLoop r (pre @ post)"
    if "Get (store (listLoop r pre)) obj = Inl e"
    using that by (simp add: listLoop_append)
  show ?thesis using 1 2 3 RunLoop_listCalls [of r ticks] by simp
qed

theorem list_failure_and_skip_witness:
  "listWatch (ex_reflector Map.empty True 0) (listCalls (ex_reflector Map.empty True 0)) =
     Inl ''backend down'' \<and>
   listAllData (ex_reflector Map.empty True 0) = ex_reflector Map.empty True 1 \<and>
   listCalls (RunLoop (ex_reflector Map.empty True 0) [SyncTick, WatchTick, SyncTick, CxtDone, SyncTick]) = 2 \<and>
   RunLoop (ex_reflector Map.empty True 0) [SyncTick, SyncTick] =
     (ex_reflector [''ns/a'' \<mapsto> ex_obj ''a'' None 1] True 2)\<lparr>fired := [OnAdd (ex_obj ''a'' None 1)]\<rparr> \<and>
   Get (store (listLoop (ex_reflector Map.empty True 1) [ex_obj ''b'' None 2])) (ex_obj [] None 0) =
     Inl (KeyError (ex_obj [] None 0) ''empty name'') \<and>
   listLoop (ex_reflector Map.empty True 1) [ex_obj ''b'' None 2, ex_obj [] None 0, ex_obj ''a'' None 1] =
     (ex_reflector [''ns/b'' \<mapsto> ex_obj ''b'' None 2, ''ns/a'' \<mapsto> ex_obj ''a'' None 1] True 1)
       \<lparr>fired := [OnAdd (ex_obj ''b'' None 2), OnAdd (ex_obj ''a'' None 1)]\<rparr>"
proof -
  let ?A1 = "ex_obj ''a'' None 1" and ?B = "ex_obj ''b'' None 2" and ?bad = "ex_obj [] None 0"
  let ?R0 = "ex_reflector Map.empty True 0"
  let ?R1 = "ex_reflector Map.empty True 1"
  note defs = Get_def Add_def Update_def notify_def
  have h1: "listWatch ?R0 (listCalls ?R0) = Inl ''backend down''" by simp
  have h2: "Get (store (listLoop ?R1 [?B])) ?bad = Inl (KeyError ?bad ''empty name'')"
    by (simp add: defs)
  note T0 = list_failure_and_skip [of ?R0 "''backend down''" "[SyncTick]"]
  from T0 h1 have c1: "listAllData ?R0 = ?R0\<lparr>listCalls := Suc (listCalls ?R0)\<rparr>"
    by blast
  from T0 have c2: "RunLoop ?R0 (SyncTick # [SyncTick]) = RunLoop (listAllData ?R0) [SyncTick]"
    by blast
  from list_failure_and_skip [of ?R0 _ "[SyncTick, WatchTick, SyncTick, CxtDone, SyncTick]"]
  have c3: "listCalls (RunLoop ?R0 [SyncTick, WatchTick, SyncTick, CxtDone, SyncTick]) =
      listCalls ?R0 + length (filter (\<lambda>t. t = SyncTick)
        (takeWhile (\<lambda>t. t \<noteq> CxtDone)
          ([SyncTick, WatchTick, SyncTick, CxtDone, SyncTick] :: nat tick list)))"
    by blast
  from list_failure_and_skip [of ?R1 _ _ "[?B]" ?bad "KeyError ?bad ''empty name''" "[?A1]"] h2
  have c4: "listLoop ?R1 ([?B] @ ?bad # [?A1]) = listLoop ?R1 ([?B] @ [?A1])"
    by blast
  have e1: "listAllData ?R0 = ?R1" unfolding c1 by simp
  have e2: "RunLoop ?R0 [SyncTick, SyncTick] =
      (ex_reflector [''ns/a'' \<mapsto> ?A1] True 2)\<lparr>fired := [OnAdd ?A1]\<rparr>"
    using c2 unfolding e1 by (simp add: listAllData_def defs)
  have e3: "listCalls (RunLoop ?R0 [SyncTick, WatchTick, SyncTick, CxtDone, SyncTick]) = 2"
    unfolding c3 by simp
  have e4: "listLoop ?R1 [?B, ?bad, ?A1] =
      (ex_reflector [''ns/b'' \<mapsto> ?B, ''ns/a'' \<mapsto> ?A1] True 1)\<lparr>fired := [OnAdd ?B, OnAdd ?A1]\<rparr>"
    using c4 by (simp add: defs)
  show ?thesis using h1 h2 e1 e2 e3 e4 by simp
qed

text \<open>
  C10. When \<open>Get\<close> returns an error for the payload of an event, \<open>processAddUpdate\<close>
  and \<open>processDeletion\<close> return with the reconciler unchanged (the same store, no call
  on the handler), and the watch loop, whatever the type of the event, goes on with the
  events that follow as if the event had not arrived.
\<close>

theorem watch_get_error:
  fixes r :: "'a Reflector"
  assumes "Get (store r) (Data ev) = Inl e"
  shows "processAddUpdate r ev = r \<and> processDeletion r ev = r \<and>
         watchLoop r (ev # evs) = watchLoop r evs \<and>
         handleWatch r (Inr (ev # evs)) = handleWatch r (Inr evs)"
proof -
  have 1: "processAddUpdate r' ev = r'" "processDeletion r' ev = r'"
    if "store r' = store r" for r' :: "'a Reflector"
    using assms that by (simp_all add: processAddUpdate_def processDeletion_def)
  have 2: "watchLoop r' (ev # evs) = watchLoop r' evs"
    if "store r' = store r" for r' :: "'a Reflector"
    using 1 [OF that] by (cases "Type ev") simp_all
  have 3: "handleWatch r (Inr (ev # evs)) = handleWatch r (Inr evs)"
    unfolding handleWatch_def using 2 [of "r\<lparr>underWatch := True\<rparr>"]
    by simp
  show ?thesis using 1 [of r] 2 [of r] 3 by simp
qed

theorem watch_get_error_witness:
  "Get (store (ex_reflector [''ns/a'' \<mapsto> ex_obj ''a'' None 1] True 1)) (ex_obj [] None 0) =
     Inl (KeyError (ex_obj [] None 0) ''empty name'') \<and>
   processAddUpdate (ex_reflector [''ns/a'' \<mapsto> ex_obj ''a'' None 1] True 1)
     \<lparr>Type = EventDeleted, Data = ex_obj [] None 0\<rparr> =
     ex_reflector [''ns/a'' \<mapsto> ex_obj ''a'' None 1] True 1 \<and>
   processDeletion (ex_reflector [''ns/a'' \<mapsto> ex_obj ''a'' None 1] True 1)
     \<lparr>Type = EventDeleted, Data = ex_obj [] None 0\<rparr> =
     ex_reflector [''ns/a'' \<mapsto> ex_obj ''a'' None 1] True 1 \<and>
   watchLoop (ex_reflector [''ns/a'' \<mapsto> ex_obj ''a'' None 1] True 1)
     [\<lparr>Type = EventDeleted, Data = ex_obj [] None 0\<rparr>,
      \<lparr>Type = EventUpdated, Data = ex_obj ''a'' None 2\<rparr>] =
     (ex_reflector [''ns/a'' \<mapsto> ex_obj ''a'' None 2] True 1)
       \<lparr>fired := [OnUpdate (ex_obj ''a'' None 1) (ex_obj ''a'' None 2)]\<rparr>"
proof -
  let ?A1 = "ex_obj ''a'' None 1" and ?A2 = "ex_obj ''a'' None 2" and ?bad = "ex_obj [] None 0"
  let ?R = "ex_reflector [''ns/a'' \<mapsto> ?A1] True 1"
  let ?ev = "\<lparr>Type = EventDeleted, Data = ?bad\<rparr>"
  let ?evU = "\<lparr>Type = EventUpdated, Data = ?A2\<rparr>"
  note defs = Get_def Add_def Update_def notify_def
  have h: "Get (store ?R) (Data ?ev) = Inl (KeyError ?bad ''empty name'')"
    by (simp add: defs)
  from watch_get_error [OF h, of "[?evU]"]
  have c: "processAddUpdate ?R ?ev = ?R" "processDeletion ?R ?ev = ?R"
    "watchLoop ?R (?ev # [?evU]) = watchLoop ?R [?evU]"
    by blast+
  have e: "watchLoop ?R [?ev, ?evU] =
      (ex_reflector [''ns/a'' \<mapsto> ?A2] True 1)\<lparr>fired := [OnUpdate ?A1 ?A2]\<rparr>"
    unfolding c(3) by (simp add: processAddUpdate_def defs)
  show ?thesis using h c(1,2) e by simp
qed

end
